theory Spec2Isabelle
  imports Complex_Main "HOL-Library.Log_Nat" "HOL-Library.Multiset"
begin

section \<open>Python values used by \<open>custom_dict.Dictionary\<close>\<close>

text \<open>
  Keys of the dictionary are Python objects. The model has the three kinds of key the
  repository's tests use: \<open>int\<close>, \<open>float\<close> (a finite double, given by its exact value) and
  \<open>str\<close>. \<open>py_eq\<close> is Python's \<open>==\<close> on them (numbers compare by value across the two
  numeric types, a string never equals a number) and \<open>same_type\<close> is
  \<open>type(a) is type(b)\<close>. NaN and the infinities are not modelled.
\<close>

datatype pykey = PyInt int | PyFloat rat | PyStr string

fun py_eq :: "pykey \<Rightarrow> pykey \<Rightarrow> bool" where
  "py_eq (PyInt a) (PyInt b) = (a = b)"
| "py_eq (PyInt a) (PyFloat b) = (of_int a = b)"
| "py_eq (PyFloat a) (PyInt b) = (a = of_int b)"
| "py_eq (PyFloat a) (PyFloat b) = (a = b)"
| "py_eq (PyStr a) (PyStr b) = (a = b)"
| "py_eq _ _ = False"

fun same_type :: "pykey \<Rightarrow> pykey \<Rightarrow> bool" where
  "same_type (PyInt _) (PyInt _) = True"
| "same_type (PyFloat _) (PyFloat _) = True"
| "same_type (PyStr _) (PyStr _) = True"
| "same_type _ _ = False"

text \<open>
  The exceptions the class can raise or let through. \<open>KeyError\<close> carries the key, as
  \<open>raise KeyError(key)\<close> does.
\<close>

datatype error = KeyError pykey | ValueError | ZeroDivisionError | OverflowError | IndexError

text \<open>
  The built-in \<open>hash\<close> is not part of the repository (and is seeded per process for
  strings), so every operation takes it as the parameter \<open>h\<close>. The concrete runs below
  use numeric keys, whose hash CPython fixes (Python documentation, "Hashing of numeric
  types"): with \<open>P = 2^61 - 1\<close>, a non-negative rational \<open>m / n\<close> hashes to
  \<open>m * n^(P - 2) mod P\<close>, a negative number to the negated hash of its absolute value,
  and \<open>-1\<close> is replaced by \<open>-2\<close>. An \<open>int\<close> and a \<open>float\<close> of the same value hash
  the same. \<open>hash_numeric hs\<close> is that function on numbers and \<open>hs\<close> on strings.
\<close>

definition hash_modulus :: int where
  "hash_modulus = 2 ^ 61 - 1"

definition hash_int :: "int \<Rightarrow> int" where
  "hash_int n =
     (let m = \<bar>n\<bar> mod hash_modulus; r = (if n < 0 then - m else m)
      in if r = - 1 then - 2 else r)"

definition hash_rat :: "rat \<Rightarrow> int" where
  "hash_rat x =
     (if x = of_int \<lfloor>x\<rfloor> then hash_int \<lfloor>x\<rfloor>
      else let (m, n) = quotient_of \<bar>x\<bar>;
               a = (m * (n ^ nat (hash_modulus - 2) mod hash_modulus)) mod hash_modulus;
               r = (if x < 0 then - a else a)
           in if r = - 1 then - 2 else r)"

fun hash_numeric :: "(string \<Rightarrow> int) \<Rightarrow> pykey \<Rightarrow> int" where
  "hash_numeric hs (PyInt n) = hash_int n"
| "hash_numeric hs (PyFloat x) = hash_rat x"
| "hash_numeric hs (PyStr s) = hs s"

section \<open>Double-precision arithmetic\<close>

text \<open>
  \<open>load_factor\<close> is a Python \<open>float\<close>, and the capacity searches compute with floats:
  \<open>previous_capacity * self.load_factor\<close>, \<open>previous_capacity / 2\<close>,
  \<open>self.size / self.capacity\<close>. A finite double is modelled by its exact value in
  \<open>rat\<close>; \<open>fl\<close> rounds an exact result to the nearest double (IEEE 754 binary64, 53
  significant bits, least exponent \<open>-1074\<close>, ties to even), which is what each of these
  operations returns. Comparisons between a float and an \<open>int\<close> are exact in Python and
  in the model.
\<close>

definition ilog2 :: "rat \<Rightarrow> int" where
  "ilog2 x = (if 1 \<le> x then bitlen \<lfloor>x\<rfloor> - 1 else - bitlen (\<lceil>1 / x\<rceil> - 1))"

definition ulp :: "rat \<Rightarrow> rat" where
  "ulp x = 2 powi (max (ilog2 x) (- 1022) - 52)"

definition round_half_even :: "rat \<Rightarrow> int" where
  "round_half_even q =
     (let f = \<lfloor>q\<rfloor>; d = q - of_int f
      in if d < 1 / 2 then f else if 1 / 2 < d then f + 1 else if even f then f else f + 1)"

definition fl :: "rat \<Rightarrow> rat" where
  "fl x = sgn x * (of_int (round_half_even (\<bar>x\<bar> / ulp \<bar>x\<bar>)) * ulp \<bar>x\<bar>)"

text \<open>
  An exact result that rounds to \<open>2^1024\<close> or more does not fit a double. Converting an
  \<open>int\<close> to \<open>float\<close> and dividing two \<open>int\<close>s then raise \<open>OverflowError\<close>.
  (A product of two floats would give \<open>inf\<close> instead; with a load factor of at most 1, as
  the theorems below assume, a product is never larger than its float operand.)
\<close>

definition overflows :: "rat \<Rightarrow> bool" where
  "overflows x = (2 ^ 1024 - 2 ^ 970 \<le> \<bar>x\<bar>)"

definition int_to_float :: "int \<Rightarrow> error + rat" where
  "int_to_float n = (if overflows (of_int n) then Inl OverflowError else Inr (fl (of_int n)))"

definition truediv_int :: "int \<Rightarrow> int \<Rightarrow> error + rat" where
  "truediv_int a b =
     (if b = 0 then Inl ZeroDivisionError
      else if overflows (of_int a / of_int b) then Inl OverflowError
      else Inr (fl (of_int a / of_int b)))"

text \<open>The default argument \<open>load_factor: float = 2 / 3\<close>.\<close>

definition default_load_factor :: rat where
  "default_load_factor = fl (2 / 3)"

section \<open>The table\<close>

text \<open>
  An entry is the tuple \<open>(key, value, hash(key))\<close>; \<open>self.buckets\<close> is a list of lists of
  entries. The attribute \<open>size\<close> is the field \<open>size_d\<close>.
\<close>

type_synonym 'v entry = "pykey \<times> 'v \<times> int"

record 'v dictionary =
  load_factor :: rat
  size_d :: int
  capacity :: nat
  buckets :: "'v entry list list"

subsection \<open>Capacity searches\<close>

text \<open>
  \<^verbatim>\<open>while previous_capacity * self.load_factor < self.size: previous_capacity *= 2\<close>
  \<^verbatim>\<open>return int(previous_capacity)\<close>
  The capacity stays an \<open>int\<close>; each test converts it to a float. The loop need not
  terminate (a capacity of 0 is doubled for ever), so its result is an \<open>option\<close>.
\<close>

partial_function (option) increase_loop :: "rat \<Rightarrow> int \<Rightarrow> nat \<Rightarrow> (error + nat) option" where
  "increase_loop lf sz previous_capacity =
     (case int_to_float (int previous_capacity) of
        Inl e \<Rightarrow> Some (Inl e)
      | Inr f \<Rightarrow>
          if fl (f * lf) < of_int sz then increase_loop lf sz (previous_capacity * 2)
          else Some (Inr previous_capacity))"

declare increase_loop.simps [code]

definition define_potential_capacity_increase ::
  "rat \<Rightarrow> int \<Rightarrow> nat \<Rightarrow> (error + nat) option" where
  "define_potential_capacity_increase lf sz previous_capacity =
     increase_loop lf sz previous_capacity"

text \<open>
  \<^verbatim>\<open>while previous_capacity / 2 * self.load_factor > self.size: previous_capacity /= 2\<close>
  \<^verbatim>\<open>return int(previous_capacity)\<close>
  Here \<open>/\<close> is true division: after the first pass \<open>previous_capacity\<close> is a float, and
  \<open>int(...)\<close> truncates it.
\<close>

partial_function (option) decrease_loop :: "rat \<Rightarrow> int \<Rightarrow> rat \<Rightarrow> (error + rat) option" where
  "decrease_loop lf sz previous_capacity =
     (if overflows (previous_capacity / 2) then Some (Inl OverflowError)
      else if of_int sz < fl (fl (previous_capacity / 2) * lf)
      then decrease_loop lf sz (fl (previous_capacity / 2))
      else Some (Inr previous_capacity))"

declare decrease_loop.simps [code]

definition define_potential_capacity_decrease ::
  "rat \<Rightarrow> int \<Rightarrow> nat \<Rightarrow> (error + nat) option" where
  "define_potential_capacity_decrease lf sz previous_capacity =
     (case decrease_loop lf sz (of_nat previous_capacity) of
        None \<Rightarrow> None
      | Some (Inl e) \<Rightarrow> Some (Inl e)
      | Some (Inr p) \<Rightarrow> Some (Inr (nat \<lfloor>p\<rfloor>)))"

subsection \<open>Rehashing\<close>

text \<open>
  Lines 192 to 200 of \<open>_resize\<close>: a fresh list of \<open>new_capacity\<close> empty buckets, then every
  entry of every old bucket, in order, is appended to bucket \<open>hash(key) % new_capacity\<close>.
\<close>

fun rehash_entries ::
  "(pykey \<Rightarrow> int) \<Rightarrow> nat \<Rightarrow> 'v entry list \<Rightarrow> 'v entry list list \<Rightarrow> error + 'v entry list list" where
  "rehash_entries h new_capacity [] new_buckets = Inr new_buckets"
| "rehash_entries h new_capacity ((key, val, _) # es) new_buckets =
     (if new_capacity = 0 then Inl ZeroDivisionError
      else let bucket_index = nat (h key mod int new_capacity)
           in if bucket_index < length new_buckets
              then rehash_entries h new_capacity es
                     (new_buckets[bucket_index := new_buckets ! bucket_index @ [(key, val, h key)]])
              else Inl IndexError)"

definition rehash :: "(pykey \<Rightarrow> int) \<Rightarrow> nat \<Rightarrow> 'v entry list list \<Rightarrow> error + 'v entry list list" where
  "rehash h new_capacity bs = rehash_entries h new_capacity (concat bs) (replicate new_capacity [])"

definition resize :: "(pykey \<Rightarrow> int) \<Rightarrow> 'v dictionary \<Rightarrow> bool \<Rightarrow> (error + 'v dictionary) option" where
  "resize h t smaller =
     (case (if smaller
            then define_potential_capacity_decrease (load_factor t) (size_d t) (capacity t)
            else define_potential_capacity_increase (load_factor t) (size_d t) (capacity t)) of
        None \<Rightarrow> None
      | Some (Inl e) \<Rightarrow> Some (Inl e)
      | Some (Inr new_capacity) \<Rightarrow>
          (case rehash h new_capacity (buckets t) of
             Inl e \<Rightarrow> Some (Inl e)
           | Inr new_buckets \<Rightarrow> Some (Inr (t\<lparr>buckets := new_buckets, capacity := new_capacity\<rparr>))))"

text \<open>
  \<open>_capacity_recalculation\<close> passes its flag \<open>increased\<close> (False in the only call) as
  \<open>smaller\<close>.
\<close>

definition capacity_recalculation ::
  "(pykey \<Rightarrow> int) \<Rightarrow> 'v dictionary \<Rightarrow> bool \<Rightarrow> (error + 'v dictionary) option" where
  "capacity_recalculation h t increased =
     (case truediv_int (size_d t) (int (capacity t)) of
        Inl e \<Rightarrow> Some (Inl e)
      | Inr q \<Rightarrow> if load_factor t \<le> q then resize h t increased else Some (Inr t))"

subsection \<open>Probing\<close>

text \<open>
  The \<open>while bucket:\<close> loop of \<open>_get_bucket_index\<close>, with \<open>bucket_index\<close> as the loop
  variable. \<open>self.buckets[bucket_index]\<close> is read before the wrap-around test, as in the
  source.
\<close>

definition type_match :: "pykey \<Rightarrow> 'v entry \<Rightarrow> bool" where
  "type_match key e = (py_eq (fst e) key \<and> same_type (fst e) key)"

function probe ::
  "(pykey \<Rightarrow> int) \<Rightarrow> 'v entry list list \<Rightarrow> nat \<Rightarrow> pykey \<Rightarrow> nat \<Rightarrow> error + nat" where
  "probe h bs cap key bucket_index =
     (if length bs \<le> bucket_index then Inl IndexError
      else if bs ! bucket_index = [] then Inr bucket_index
      else if list_ex (type_match key) (bs ! bucket_index) then Inr bucket_index
      else if cap = 0 then Inl ZeroDivisionError
      else if length bs \<le> (bucket_index + 1) mod cap then Inl IndexError
      else if (bucket_index + 1) mod cap = nat (h key mod int cap) then Inl (KeyError key)
      else probe h bs cap key ((bucket_index + 1) mod cap))"
  by pat_completeness auto

termination
proof (relation "measure (\<lambda>(h, bs, cap, key, bucket_index).
         nat ((h key mod int cap - int bucket_index - 1) mod int cap))", goal_cases)
  case 1
  show ?case by simp
next
  case (2 h bs cap key b)
  let ?c = "int cap"
  let ?i = "h key mod ?c"
  let ?m = "(?i - int b - 1) mod ?c"
  from 2 have cpos: "0 < ?c" by simp
  from 2 have ne: "(b + 1) mod cap \<noteq> nat ?i" by simp
  have m0: "0 \<le> ?m" and mc: "?m < ?c" using cpos by simp_all
  have nxt: "int ((b + 1) mod cap) = (int b + 1) mod ?c"
    by (simp add: zmod_int add.commute)
  have "(?i - int ((b + 1) mod cap) - 1) mod ?c = (?i - (int b + 1) mod ?c - 1) mod ?c"
    using nxt by simp
  also have "\<dots> = (?i - (int b + 1) - 1) mod ?c"
    by (metis mod_diff_left_eq mod_diff_right_eq)
  also have "\<dots> = (?m - 1) mod ?c"
    by (metis (no_types, opaque_lifting) diff_diff_eq mod_diff_left_eq)
  finally have e1: "(?i - int ((b + 1) mod cap) - 1) mod ?c = (?m - 1) mod ?c" .
  have "?m \<noteq> 0"
  proof
    assume "?m = 0"
    then have "(?i - (int b + 1)) mod ?c = 0" by (simp add: algebra_simps)
    then have "?i mod ?c = (int b + 1) mod ?c"
      by (metis mod_eq_dvd_iff mod_0_imp_dvd)
    then have "nat ?i = (b + 1) mod cap" using nxt by simp
    with ne show False by simp
  qed
  with m0 have m1: "1 \<le> ?m" by linarith
  then have "(?m - 1) mod ?c = ?m - 1" using mc by simp
  with e1 m1 show ?case by simp
qed

declare probe.simps [simp del]

text \<open>
  \<open>_get_bucket_index\<close>: \<open>hash(key) % self.capacity\<close> raises \<open>ZeroDivisionError\<close> when the
  capacity is 0; otherwise the loop starts at that index.
\<close>

definition get_bucket_index :: "(pykey \<Rightarrow> int) \<Rightarrow> 'v dictionary \<Rightarrow> pykey \<Rightarrow> error + nat" where
  "get_bucket_index h t key =
     (if capacity t = 0 then Inl ZeroDivisionError
      else probe h (buckets t) (capacity t) key (nat (h key mod int (capacity t))))"

subsection \<open>Scanning one bucket\<close>

text \<open>
  \<open>__getitem__\<close>, \<open>__setitem__\<close>, \<open>__delitem__\<close> and \<open>__init__\<close> scan the bucket they were
  given for the first entry with \<open>stored_key == key\<close>; unlike the probing loop they do
  not compare the types.
\<close>

fun find_value :: "'v entry list \<Rightarrow> pykey \<Rightarrow> 'v option" where
  "find_value [] key = None"
| "find_value ((stored_key, stored_value, _) # es) key =
     (if py_eq stored_key key then Some stored_value else find_value es key)"

text \<open>
  The loop of \<open>__setitem__\<close> and \<open>__init__\<close>: \<open>None\<close> when no stored key equals \<open>key\<close>,
  otherwise the bucket with \<open>bucket[i] = (key, value, hash(key))\<close> at the first match.
\<close>

fun replace_first :: "'v entry list \<Rightarrow> pykey \<Rightarrow> 'v \<Rightarrow> int \<Rightarrow> 'v entry list option" where
  "replace_first [] key val hv = None"
| "replace_first ((stored_key, stored_value, stored_hash) # es) key val hv =
     (if py_eq stored_key key then Some ((key, val, hv) # es)
      else map_option ((#) (stored_key, stored_value, stored_hash)) (replace_first es key val hv))"

text \<open>The loop of \<open>__delitem__\<close>: \<open>del bucket[i]\<close> at the first match.\<close>

fun remove_first :: "'v entry list \<Rightarrow> pykey \<Rightarrow> 'v entry list option" where
  "remove_first [] key = None"
| "remove_first ((stored_key, stored_value, stored_hash) # es) key =
     (if py_eq stored_key key then Some es
      else map_option ((#) (stored_key, stored_value, stored_hash)) (remove_first es key))"

subsection \<open>The public operations\<close>

text \<open>
  A mutating method returns the updated table, or the exception it raises; \<open>None\<close> means
  that the call does not return. The state a raising call leaves behind (the counter
  already incremented by \<open>__setitem__\<close>) is not kept.
\<close>

definition setitem ::
  "(pykey \<Rightarrow> int) \<Rightarrow> 'v dictionary \<Rightarrow> pykey \<Rightarrow> 'v \<Rightarrow> (error + 'v dictionary) option" where
  "setitem h t key val =
     (case capacity_recalculation h (t\<lparr>size_d := size_d t + 1\<rparr>) False of
        None \<Rightarrow> None
      | Some (Inl e) \<Rightarrow> Some (Inl e)
      | Some (Inr t1) \<Rightarrow>
          (case get_bucket_index h t1 key of
             Inl e \<Rightarrow> Some (Inl e)
           | Inr bucket_index \<Rightarrow>
               (case replace_first (buckets t1 ! bucket_index) key val (h key) of
                  Some bucket \<Rightarrow> Some (Inr (t1\<lparr>buckets := (buckets t1)[bucket_index := bucket]\<rparr>))
                | None \<Rightarrow>
                    Some (Inr (t1\<lparr>buckets :=
                      (buckets t1)[bucket_index := buckets t1 ! bucket_index @ [(key, val, h key)]]\<rparr>)))))"

definition getitem :: "(pykey \<Rightarrow> int) \<Rightarrow> 'v dictionary \<Rightarrow> pykey \<Rightarrow> error + 'v" where
  "getitem h t key =
     (case get_bucket_index h t key of
        Inl e \<Rightarrow> Inl e
      | Inr bucket_index \<Rightarrow>
          (case find_value (buckets t ! bucket_index) key of
             Some stored_value \<Rightarrow> Inr stored_value
           | None \<Rightarrow> Inl (KeyError key)))"

definition delitem ::
  "(pykey \<Rightarrow> int) \<Rightarrow> 'v dictionary \<Rightarrow> pykey \<Rightarrow> (error + 'v dictionary) option" where
  "delitem h t key =
     (case get_bucket_index h t key of
        Inl e \<Rightarrow> Some (Inl e)
      | Inr bucket_index \<Rightarrow>
          (case remove_first (buckets t ! bucket_index) key of
             None \<Rightarrow> Some (Inl (KeyError key))
           | Some bucket \<Rightarrow>
               (let t1 = t\<lparr>buckets := (buckets t)[bucket_index := bucket], size_d := size_d t - 1\<rparr>
                in if size_d t1 < int (capacity t1 div 4) then resize h t1 True
                   else Some (Inr t1))))"

text \<open>\<open>__contains__\<close> catches \<open>KeyError\<close> and nothing else.\<close>

definition contains :: "(pykey \<Rightarrow> int) \<Rightarrow> 'v dictionary \<Rightarrow> pykey \<Rightarrow> error + bool" where
  "contains h t key =
     (case getitem h t key of
        Inr _ \<Rightarrow> Inr True
      | Inl (KeyError _) \<Rightarrow> Inr False
      | Inl e \<Rightarrow> Inl e)"

definition iter_d :: "'v dictionary \<Rightarrow> (pykey \<times> 'v) list" where
  "iter_d t = concat (map (map (\<lambda>(key, val, _). (key, val))) (buckets t))"

definition len_d :: "'v dictionary \<Rightarrow> int" where
  "len_d t = size_d t"

text \<open>
  \<open>__init__\<close>. The keys of \<open>**kwargs\<close> are strings, and every Python object has the
  attribute \<open>__hash__\<close>, so \<open>validate_keys\<close> holds of them. The insertion loop returns
  from \<open>__init__\<close> at the first key it finds already stored.
\<close>

definition has_hash_attr :: "pykey \<Rightarrow> bool" where
  "has_hash_attr key = True"

definition validate_keys :: "pykey list \<Rightarrow> bool" where
  "validate_keys keys = list_all has_hash_attr keys"

fun init_insert ::
  "(pykey \<Rightarrow> int) \<Rightarrow> 'v dictionary \<Rightarrow> (string \<times> 'v) list \<Rightarrow> error + 'v dictionary" where
  "init_insert h t [] = Inr t"
| "init_insert h t ((k, val) # kwargs) =
     (case get_bucket_index h t (PyStr k) of
        Inl e \<Rightarrow> Inl e
      | Inr bucket_index \<Rightarrow>
          (case replace_first (buckets t ! bucket_index) (PyStr k) val (h (PyStr k)) of
             Some bucket \<Rightarrow> Inr (t\<lparr>buckets := (buckets t)[bucket_index := bucket]\<rparr>)
           | None \<Rightarrow>
               init_insert h
                 (t\<lparr>buckets :=
                    (buckets t)[bucket_index := buckets t ! bucket_index @ [(PyStr k, val, h (PyStr k))]]\<rparr>)
                 kwargs))"

definition init ::
  "(pykey \<Rightarrow> int) \<Rightarrow> nat \<Rightarrow> rat \<Rightarrow> (string \<times> 'v) list \<Rightarrow> (error + 'v dictionary) option" where
  "init h initial_capacity lf kwargs =
     (if validate_keys (map (PyStr \<circ> fst) kwargs)
      then (case define_potential_capacity_increase lf (int (length kwargs)) initial_capacity of
              None \<Rightarrow> None
            | Some (Inl e) \<Rightarrow> Some (Inl e)
            | Some (Inr c) \<Rightarrow>
                Some (init_insert h
                  \<lparr>load_factor = lf, size_d = int (length kwargs), capacity = c,
                   buckets = replicate c []\<rparr> kwargs))
      else Some (Inl ValueError))"

text \<open>
  A run of operations on a table: the script of a test. It stops at the first call that
  raises or does not return.
\<close>

datatype 'v op = Set pykey 'v | Del pykey

fun run :: "(pykey \<Rightarrow> int) \<Rightarrow> 'v dictionary \<Rightarrow> 'v op list \<Rightarrow> (error + 'v dictionary) option" where
  "run h t [] = Some (Inr t)"
| "run h t (Set key val # ops) =
     (case setitem h t key val of Some (Inr t') \<Rightarrow> run h t' ops | r \<Rightarrow> r)"
| "run h t (Del key # ops) =
     (case delitem h t key of Some (Inr t') \<Rightarrow> run h t' ops | r \<Rightarrow> r)"

text \<open>A test script: construct a table, then run the operations on it.\<close>

definition script ::
  "(pykey \<Rightarrow> int) \<Rightarrow> nat \<Rightarrow> rat \<Rightarrow> (string \<times> 'v) list \<Rightarrow> 'v op list
     \<Rightarrow> (error + 'v dictionary) option" where
  "script h initial_capacity lf kwargs ops =
     (case init h initial_capacity lf kwargs of Some (Inr t) \<Rightarrow> run h t ops | r \<Rightarrow> r)"

text \<open>What a caller observes of the table a script returns.\<close>

definition observe :: "('v dictionary \<Rightarrow> 'a) \<Rightarrow> (error + 'v dictionary) option \<Rightarrow> (error + 'a) option" where
  "observe f r = map_option (map_sum id f) r"

text \<open>The number of entries stored in the buckets.\<close>

definition entry_count :: "'v dictionary \<Rightarrow> nat" where
  "entry_count t = length (concat (buckets t))"

section \<open>Vocabulary of the properties\<close>

text \<open>
  \<open>home\<close> is the index \<open>hash(key) % capacity\<close> at which probing for a key starts. A bucket
  is \<open>busy\<close> for a key when the probing loop walks past it: it is not empty and holds no
  entry whose key equals the key and has its type.
\<close>

definition home :: "(pykey \<Rightarrow> int) \<Rightarrow> nat \<Rightarrow> pykey \<Rightarrow> nat" where
  "home h cap key = nat (h key mod int cap)"

definition busy :: "'v entry list list \<Rightarrow> pykey \<Rightarrow> nat \<Rightarrow> bool" where
  "busy bs key i = (bs ! i \<noteq> [] \<and> \<not> list_ex (type_match key) (bs ! i))"

text \<open>
  What the probing loop is to compute: the first bucket, in cyclic order from the home
  index, that is not busy; \<open>KeyError\<close> when all \<open>cap\<close> buckets are busy.
\<close>

definition probe_spec :: "(pykey \<Rightarrow> int) \<Rightarrow> 'v entry list list \<Rightarrow> nat \<Rightarrow> pykey \<Rightarrow> error + nat" where
  "probe_spec h bs cap key =
     (case find (\<lambda>d. \<not> busy bs key ((home h cap key + d) mod cap)) [0..<cap] of
        None \<Rightarrow> Inl (KeyError key)
      | Some d \<Rightarrow> Inr ((home h cap key + d) mod cap))"

text \<open>
  The probing loop with a bound on the number of buckets it may examine: one unit of
  fuel for each pass through the loop, \<open>None\<close> when the fuel runs out.
\<close>

fun probe_fuel ::
  "nat \<Rightarrow> (pykey \<Rightarrow> int) \<Rightarrow> 'v entry list list \<Rightarrow> nat \<Rightarrow> pykey \<Rightarrow> nat \<Rightarrow> (error + nat) option" where
  "probe_fuel 0 h bs cap key bucket_index = None"
| "probe_fuel (Suc n) h bs cap key bucket_index =
     (if length bs \<le> bucket_index then Some (Inl IndexError)
      else if bs ! bucket_index = [] then Some (Inr bucket_index)
      else if list_ex (type_match key) (bs ! bucket_index) then Some (Inr bucket_index)
      else if cap = 0 then Some (Inl ZeroDivisionError)
      else if length bs \<le> (bucket_index + 1) mod cap then Some (Inl IndexError)
      else if (bucket_index + 1) mod cap = nat (h key mod int cap) then Some (Inl (KeyError key))
      else probe_fuel n h bs cap key ((bucket_index + 1) mod cap))"

text \<open>A table is well formed when it has as many buckets as its capacity says, and at least one.\<close>

definition well_formed :: "'v dictionary \<Rightarrow> bool" where
  "well_formed t = (0 < capacity t \<and> length (buckets t) = capacity t)"

definition keys_of :: "'v dictionary \<Rightarrow> pykey list" where
  "keys_of t = map fst (concat (buckets t))"

text \<open>Keys of which no two are equal under \<open>==\<close>.\<close>

definition pairwise_ne :: "pykey list \<Rightarrow> bool" where
  "pairwise_ne ks = (distinct ks \<and> (\<forall>a \<in> set ks. \<forall>b \<in> set ks. py_eq a b \<longrightarrow> a = b))"

text \<open>
  Every stored key is found by the probing loop in the bucket that stores it; a key is
  \<open>at_home\<close> when it is stored in the bucket of its home index.
\<close>

definition reachable :: "(pykey \<Rightarrow> int) \<Rightarrow> 'v dictionary \<Rightarrow> bool" where
  "reachable h t =
     (\<forall>i < length (buckets t). \<forall>e \<in> set (buckets t ! i). get_bucket_index h t (fst e) = Inr i)"

definition at_home :: "(pykey \<Rightarrow> int) \<Rightarrow> 'v dictionary \<Rightarrow> pykey \<Rightarrow> bool" where
  "at_home h t key = (key \<in> fst ` set (buckets t ! home h (capacity t) key))"

text \<open>An entry with its hash recomputed, as the rehash stores it.\<close>

definition rehashed_entry :: "(pykey \<Rightarrow> int) \<Rightarrow> 'v entry \<Rightarrow> 'v entry" where
  "rehashed_entry h e = (fst e, fst (snd e), h (fst e))"

text \<open>
  The rehash as the specification words it: bucket \<open>j\<close> of the new array holds the old
  entries whose recomputed hash is \<open>j\<close> modulo the new capacity, in the order in which
  the old array lists them, each with the recomputed hash.
\<close>

definition rehash_spec :: "(pykey \<Rightarrow> int) \<Rightarrow> nat \<Rightarrow> 'v entry list list \<Rightarrow> 'v entry list list" where
  "rehash_spec h new_capacity bs =
     map (\<lambda>j. map (\<lambda>(key, val, _). (key, val, h key))
                (filter (\<lambda>(key, _, _). home h new_capacity key = j) (concat bs)))
         [0..<new_capacity]"

section \<open>Properties of the rounding function\<close>

text \<open>
  \<open>ilog2 x\<close> is the binary exponent of a positive \<open>x\<close>. From that: numbers with at most
  53 significant bits are rounded to themselves, rounding is monotone, a number above
  half the least positive double rounds to a positive double, and half the least
  positive double rounds to zero.
\<close>

lemma powi2_less_iff: "(2::rat) powi a < 2 powi b \<longleftrightarrow> a < b"
proof
  assume l: "(2::rat) powi a < 2 powi b"
  show "a < b"
  proof (rule ccontr)
    assume "\<not> a < b"
    then have "b \<le> a" by simp
    then have "(2::rat) powi b \<le> 2 powi a" by (intro power_int_increasing) simp_all
    with l show False by simp
  qed
next
  assume "a < b"
  then show "(2::rat) powi a < 2 powi b" by (intro power_int_strict_increasing) simp_all
qed

lemma powi2_le_iff: "(2::rat) powi a \<le> 2 powi b \<longleftrightarrow> a \<le> b"
  using powi2_less_iff[of b a] by (simp add: not_less[symmetric])

lemma bitlen_pos: "0 < n \<Longrightarrow> 1 \<le> bitlen n"
  by (simp add: bitlen_alt_def)

lemma ilog2_bounds:
  assumes "0 < x"
  shows "2 powi ilog2 x \<le> x" and "x < 2 powi (ilog2 x + 1)"
proof -
  have "2 powi ilog2 x \<le> x \<and> x < 2 powi (ilog2 x + 1)"
  proof (cases "1 \<le> x")
    case True
    define n where "n = \<lfloor>x\<rfloor>"
    define b where "b = bitlen n"
    have n1: "1 \<le> n" using True by (simp add: n_def le_floor_iff)
    then have b1: "1 \<le> b" unfolding b_def by (intro bitlen_pos) simp
    have bb: "2 ^ nat (b - 1) \<le> n" "n < 2 ^ nat b"
      using bitlen_bounds[of n] n1 by (simp_all add: b_def)
    have il: "ilog2 x = b - 1" using True by (simp add: ilog2_def n_def b_def)
    have "(2::rat) powi (b - 1) = 2 ^ nat (b - 1)"
      using b1 by (simp add: power_int_nonneg_exp)
    also have "\<dots> = of_int (2 ^ nat (b - 1))" by simp
    also have "\<dots> \<le> of_int n" using bb(1) by (simp only: of_int_le_iff)
    also have "\<dots> \<le> x" by (simp add: n_def)
    finally have lo: "2 powi (b - 1) \<le> x" .
    have "x < of_int n + 1" using floor_correct[of x] by (simp add: n_def)
    also have "\<dots> = of_int (n + 1)" by simp
    also have "\<dots> \<le> of_int (2 ^ nat b)" using bb(2) by (simp only: of_int_le_iff)
    also have "\<dots> = (2::rat) powi b" using b1 by (simp add: power_int_nonneg_exp)
    finally have hi: "x < 2 powi b" .
    from lo hi il show ?thesis by simp
  next
    case False
    define y where "y = 1 / x"
    define m where "m = \<lceil>y\<rceil> - 1"
    define b where "b = bitlen m"
    have y1: "1 < y" using False assms by (simp add: y_def)
    have "2 \<le> \<lceil>y\<rceil>" using y1 by (simp add: le_ceiling_iff)
    then have m1: "1 \<le> m" by (simp add: m_def)
    then have b1: "1 \<le> b" unfolding b_def by (intro bitlen_pos) simp
    have bb: "2 ^ nat (b - 1) \<le> m" "m < 2 ^ nat b"
      using bitlen_bounds[of m] m1 by (simp_all add: b_def)
    have my: "of_int m < y" unfolding m_def using ceiling_correct[of y] by simp
    have ym: "y \<le> of_int (m + 1)" unfolding m_def using ceiling_correct[of y] by simp
    have il: "ilog2 x = - b" using False by (simp add: ilog2_def y_def m_def b_def)
    have "y \<le> of_int (m + 1)" by (rule ym)
    also have "\<dots> \<le> of_int (2 ^ nat b)" using bb(2) by (simp only: of_int_le_iff)
    also have "\<dots> = (2::rat) ^ nat b" by simp
    finally have "y \<le> 2 ^ nat b" .
    then have "1 / 2 ^ nat b \<le> x"
      using assms by (simp add: y_def field_simps)
    moreover have "(2::rat) powi (- b) = 1 / 2 ^ nat b"
      using b1 by (simp add: power_int_minus power_int_nonneg_exp field_simps)
    ultimately have lo: "2 powi (- b) \<le> x" by simp
    have "of_int (2 ^ nat (b - 1)) \<le> (of_int m :: rat)" using bb(1) by (simp only: of_int_le_iff)
    then have "of_int (2 ^ nat (b - 1)) < y" using my by (rule le_less_trans)
    then have "(2::rat) ^ nat (b - 1) < y" by simp
    then have "x < 1 / 2 ^ nat (b - 1)"
      using assms by (simp add: y_def field_simps)
    moreover have "(2::rat) powi (- b + 1) = 1 / 2 ^ nat (b - 1)"
    proof -
      have "(2::rat) powi (- b + 1) = 2 powi (- (b - 1))" by simp
      also have "\<dots> = 1 / 2 powi (b - 1)" by (simp only: power_int_minus_divide)
      also have "\<dots> = 1 / 2 ^ nat (b - 1)" using b1 by (simp add: power_int_nonneg_exp)
      finally show ?thesis .
    qed
    ultimately have hi: "x < 2 powi (- b + 1)" by simp
    from lo hi il show ?thesis by simp
  qed
  then show "2 powi ilog2 x \<le> x" and "x < 2 powi (ilog2 x + 1)" by simp_all
qed

lemma ilog2_unique:
  assumes "2 powi e \<le> x" and "x < 2 powi (e + 1)"
  shows "ilog2 x = e"
proof -
  have xpos: "0 < x" using assms(1) by (meson less_le_trans zero_less_numeral zero_less_power_int)
  note b = ilog2_bounds[OF xpos]
  have "(2::rat) powi e < 2 powi (ilog2 x + 1)" using assms(1) b(2) by simp
  then have 1: "e < ilog2 x + 1" by (simp only: powi2_less_iff)
  have "(2::rat) powi ilog2 x < 2 powi (e + 1)" using assms(2) b(1) by simp
  then have 2: "ilog2 x < e + 1" by (simp only: powi2_less_iff)
  from 1 2 show ?thesis by simp
qed


lemma rhe_of_int: "round_half_even (of_int n) = n"
  by (simp add: round_half_even_def)

lemma rhe_ge_floor: "\<lfloor>q\<rfloor> \<le> round_half_even q"
  by (simp add: round_half_even_def Let_def)

lemma rhe_le_floor1: "round_half_even q \<le> \<lfloor>q\<rfloor> + 1"
  by (simp add: round_half_even_def Let_def)

lemma rhe_mono:
  assumes "x \<le> y"
  shows "round_half_even x \<le> round_half_even y"
proof (cases "\<lfloor>x\<rfloor> = \<lfloor>y\<rfloor>")
  case True
  with assms show ?thesis by (auto simp: round_half_even_def Let_def)
next
  case False
  with assms have "\<lfloor>x\<rfloor> < \<lfloor>y\<rfloor>" using floor_mono[of x y] by simp
  then have "round_half_even x \<le> \<lfloor>y\<rfloor>" using rhe_le_floor1[of x] by simp
  then show ?thesis using rhe_ge_floor[of y] by simp
qed

lemma rhe_ge: "of_int n \<le> q \<Longrightarrow> n \<le> round_half_even q"
  using rhe_mono[of "of_int n" q] by (simp add: rhe_of_int)

lemma rhe_le: "q \<le> of_int n \<Longrightarrow> round_half_even q \<le> n"
  using rhe_mono[of q "of_int n"] by (simp add: rhe_of_int)

lemma rhe_ge_one:
  assumes "1 / 2 < q"
  shows "1 \<le> round_half_even q"
proof (cases "1 \<le> q")
  case True
  then have "of_int 1 \<le> q" by simp
  then show ?thesis by (rule rhe_ge)
next
  case False
  then have f: "\<lfloor>q\<rfloor> = 0" using assms by (simp add: floor_eq_iff)
  show ?thesis using assms by (simp add: round_half_even_def Let_def f)
qed

lemma ulp_pos: "0 < ulp x"
  by (simp add: ulp_def)

lemma fl_zero: "fl 0 = 0"
  by (simp add: fl_def)

lemma fl_pos_eq: "0 < x \<Longrightarrow> fl x = of_int (round_half_even (x / ulp x)) * ulp x"
  by (simp add: fl_def)

lemma fl_nonneg:
  assumes "0 \<le> x"
  shows "0 \<le> fl x"
proof (cases "x = 0")
  case True
  then show ?thesis by (simp add: fl_zero)
next
  case False
  with assms have x: "0 < x" by simp
  have "of_int 0 \<le> x / ulp x" using x ulp_pos[of x] by simp
  then have "0 \<le> round_half_even (x / ulp x)" by (rule rhe_ge)
  then show ?thesis using ulp_pos[of x] by (simp add: fl_pos_eq[OF x])
qed

lemma fl_exact:
  assumes m: "0 < m" "m < 2 ^ 53" and e: "- 1074 \<le> e" and x: "x = of_int m * 2 powi e"
  shows "fl x = x"
proof -
  have xpos: "0 < x" using m by (simp add: x)
  define k where "k = max (ilog2 x) (- 1022) - 52"
  have "of_int m < (of_int (2 ^ 53) :: rat)" using m(2) by (simp only: of_int_less_iff)
  then have "x < 2 ^ 53 * 2 powi e" by (simp add: x)
  also have "\<dots> = 2 powi (53 + e)" by (simp add: power_int_add)
  finally have "2 powi ilog2 x < (2::rat) powi (53 + e)"
    using ilog2_bounds(1)[OF xpos] by simp
  then have "ilog2 x < 53 + e" by (simp only: powi2_less_iff)
  with e have ke: "k \<le> e" by (simp add: k_def)
  have u: "ulp x = 2 powi k" by (simp add: ulp_def k_def)
  have "x / ulp x = of_int m * (2 powi e / 2 powi k)" by (simp only: u) (simp add: x)
  also have "2 powi e / 2 powi k = (2::rat) powi (e - k)" by (simp add: power_int_diff)
  also have "\<dots> = 2 ^ nat (e - k)" using ke by (simp add: power_int_nonneg_exp)
  finally have q: "x / ulp x = of_int (m * 2 ^ nat (e - k))" by simp
  have "fl x = of_int (m * 2 ^ nat (e - k)) * 2 powi k"
    by (simp only: fl_pos_eq[OF xpos] q rhe_of_int) (simp only: u)
  also have "\<dots> = of_int m * (2 ^ nat (e - k) * 2 powi k)" by simp
  also have "(2::rat) ^ nat (e - k) * 2 powi k = 2 powi (e - k) * 2 powi k"
    using ke by (simp add: power_int_nonneg_exp)
  also have "\<dots> = 2 powi e" by (simp flip: power_int_add)
  finally show ?thesis by (simp add: x)
qed

lemma fl_of_nat:
  assumes "n < 2 ^ 53"
  shows "fl (of_nat n) = of_nat n"
proof (cases "n = 0")
  case True
  then show ?thesis by (simp add: fl_zero)
next
  case False
  have "int n < 2 ^ 53" using assms by (metis of_nat_less_numeral_power_cancel_iff)
  then show ?thesis using False fl_exact[of "int n" 0 "of_nat n"] by simp
qed

lemma fl_one: "fl 1 = 1"
  using fl_of_nat[of 1] by simp

lemma fl_positive:
  assumes "2 powi (- 1075) < x"
  shows "0 < fl x"
proof -
  have xpos: "0 < x" using assms by (meson less_trans zero_less_numeral zero_less_power_int)
  have "1 \<le> round_half_even (x / ulp x)"
  proof (cases "- 1022 \<le> ilog2 x")
    case True
    then have u: "ulp x = 2 powi (ilog2 x - 52)" by (simp add: ulp_def max_def)
    have "2 powi ilog2 x / 2 powi (ilog2 x - 52) \<le> x / ulp x"
      using ilog2_bounds(1)[OF xpos] by (simp add: u divide_right_mono)
    moreover have "2 powi ilog2 x / 2 powi (ilog2 x - 52) = (2::rat) powi 52"
      by (simp add: power_int_diff)
    ultimately have "of_int 1 \<le> x / ulp x" by simp
    then show ?thesis by (rule rhe_ge)
  next
    case False
    then have u: "ulp x = 2 powi (- 1074)" by (simp add: ulp_def max_def)
    have "2 powi (- 1075) / 2 powi (- 1074) < x / ulp x"
      using assms by (simp only: u divide_strict_right_mono zero_less_power_int zero_less_numeral)
    moreover have "2 powi (- 1075) / 2 powi (- 1074) = (2::rat) powi (- 1)"
      using power_int_diff[of "2::rat" "- 1075" "- 1074"] by (simp del: power_int_numeral_neg_numeral)
    ultimately have h: "1 / 2 < x / ulp x" by (simp add: power_int_minus)
    then show ?thesis by (rule rhe_ge_one)
  qed
  then have "of_int 1 \<le> (of_int (round_half_even (x / ulp x)) :: rat)"
    by (simp only: of_int_le_iff)
  then have "0 < (of_int (round_half_even (x / ulp x)) :: rat)" by simp
  then show ?thesis using ulp_pos[of x] by (simp add: fl_pos_eq[OF xpos])
qed


lemma ilog2_mono:
  assumes "0 < x" and "x \<le> y"
  shows "ilog2 x \<le> ilog2 y"
proof -
  have ypos: "0 < y" using assms by simp
  have "2 powi ilog2 x \<le> x" by (rule ilog2_bounds(1)[OF assms(1)])
  also have "x \<le> y" by (rule assms(2))
  also have "y < 2 powi (ilog2 y + 1)" by (rule ilog2_bounds(2)[OF ypos])
  finally have "ilog2 x < ilog2 y + 1" by (simp only: powi2_less_iff)
  then show ?thesis by simp
qed

lemma fl_upper:
  assumes "0 < x"
  shows "fl x \<le> 2 powi (max (ilog2 x) (- 1022) + 1)"
proof -
  define k where "k = max (ilog2 x) (- 1022) - 52"
  have u: "ulp x = 2 powi k" by (simp add: ulp_def k_def)
  have "x < 2 powi (ilog2 x + 1)" by (rule ilog2_bounds(2)[OF assms])
  also have "\<dots> \<le> 2 powi (k + 53)" by (simp only: powi2_le_iff) (simp add: k_def)
  also have "\<dots> = 2 ^ 53 * 2 powi k" by (simp add: power_int_add)
  finally have "x / 2 powi k < 2 ^ 53" by (simp add: field_simps)
  then have "x / 2 powi k \<le> of_int (2 ^ 53)" by simp
  then have "round_half_even (x / 2 powi k) \<le> 2 ^ 53" by (rule rhe_le)
  then have "(of_int (round_half_even (x / 2 powi k)) :: rat) \<le> of_int (2 ^ 53)"
    by (simp only: of_int_le_iff)
  then have "of_int (round_half_even (x / 2 powi k)) * 2 powi k \<le> (2 ^ 53 * 2 powi k :: rat)"
    by (simp add: mult_right_mono)
  also have "2 ^ 53 * 2 powi k = (2::rat) powi (k + 53)" by (simp add: power_int_add)
  finally have "fl x \<le> 2 powi (k + 53)"
    by (simp only: fl_pos_eq[OF assms]) (simp only: u)
  then show ?thesis by (simp add: k_def add.commute)
qed

lemma fl_lower:
  assumes "0 < x" and "- 1022 \<le> ilog2 x"
  shows "2 powi ilog2 x \<le> fl x"
proof -
  define k where "k = ilog2 x - 52"
  have u: "ulp x = 2 powi k" using assms(2) by (simp add: ulp_def k_def max_def)
  have "(2::rat) powi ilog2 x = 2 ^ 52 * 2 powi k" by (simp add: k_def power_int_diff)
  then have "2 ^ 52 * 2 powi k \<le> x" using ilog2_bounds(1)[OF assms(1)] by simp
  then have "of_int (2 ^ 52) \<le> x / 2 powi k" by (simp add: field_simps)
  then have "2 ^ 52 \<le> round_half_even (x / 2 powi k)" by (rule rhe_ge)
  then have "(of_int (2 ^ 52) :: rat) \<le> of_int (round_half_even (x / 2 powi k))"
    by (simp only: of_int_le_iff)
  then have a: "(2 ^ 52 * 2 powi k :: rat) \<le> of_int (round_half_even (x / 2 powi k)) * 2 powi k"
    by (simp add: mult_right_mono)
  have b: "(2::rat) powi ilog2 x = 2 ^ 52 * 2 powi k" by (simp add: k_def power_int_diff)
  have "(2::rat) powi ilog2 x \<le> of_int (round_half_even (x / 2 powi k)) * 2 powi k"
    by (simp only: b a)
  then show ?thesis by (simp only: fl_pos_eq[OF assms(1)]) (simp only: u)
qed

lemma fl_mono:
  assumes "0 \<le> x" and "x \<le> y"
  shows "fl x \<le> fl y"
proof (cases "x = 0")
  case True
  then show ?thesis using assms fl_nonneg[of y] by (simp add: fl_zero)
next
  case False
  with assms have xpos: "0 < x" and ypos: "0 < y" by simp_all
  have E: "ilog2 x \<le> ilog2 y" by (rule ilog2_mono[OF xpos assms(2)])
  show ?thesis
  proof (cases "max (ilog2 x) (- 1022) = max (ilog2 y) (- 1022)")
    case True
    then have u: "ulp y = ulp x" by (simp add: ulp_def)
    have "x / ulp x \<le> y / ulp x" using assms(2) ulp_pos[of x] by (simp add: divide_right_mono)
    then have "round_half_even (x / ulp x) \<le> round_half_even (y / ulp x)" by (rule rhe_mono)
    then have "(of_int (round_half_even (x / ulp x)) :: rat) \<le> of_int (round_half_even (y / ulp x))"
      by (simp only: of_int_le_iff)
    then have "of_int (round_half_even (x / ulp x)) * ulp x
             \<le> of_int (round_half_even (y / ulp x)) * ulp x"
      using ulp_pos[of x] by (simp add: mult_right_mono)
    then show ?thesis by (simp only: fl_pos_eq[OF xpos] fl_pos_eq[OF ypos] u)
  next
    case False
    with E have y: "- 1022 \<le> ilog2 y" and lt: "max (ilog2 x) (- 1022) + 1 \<le> ilog2 y"
      by (simp_all add: max_def split: if_splits)
    have "fl x \<le> 2 powi (max (ilog2 x) (- 1022) + 1)" by (rule fl_upper[OF xpos])
    also have "\<dots> \<le> 2 powi ilog2 y" using lt by (simp only: powi2_le_iff)
    also have "\<dots> \<le> fl y" by (rule fl_lower[OF ypos y])
    finally show ?thesis .
  qed
qed


lemma fl_pow2:
  assumes "- 1074 \<le> e"
  shows "fl (2 powi e) = 2 powi e"
  using fl_exact[of 1 e "2 powi e"] assms by simp

lemma fl_half_least: "fl (2 powi (- 1075)) = 0"
proof -
  have il: "ilog2 (2 powi (- 1075)) = - 1075"
  proof (rule ilog2_unique)
    show "(2::rat) powi (- 1075) \<le> 2 powi (- 1075)" by (rule order_refl)
    show "(2::rat) powi (- 1075) < 2 powi (- 1075 + 1)" by (subst powi2_less_iff) simp
  qed
  have u: "ulp (2 powi (- 1075)) = 2 powi (- 1074)"
    by (simp only: ulp_def il) simp
  have "2 powi (- 1075) / 2 powi (- 1074) = (2::rat) powi (- 1)"
    using power_int_diff[of "2::rat" "- 1075" "- 1074"] by (simp del: power_int_numeral_neg_numeral)
  then have q: "2 powi (- 1075) / 2 powi (- 1074) = (1 / 2 :: rat)" by (simp add: power_int_minus)
  have "\<lfloor>1 / 2 :: rat\<rfloor> = 0" by (simp add: floor_eq_iff)
  then have r: "round_half_even (1 / 2) = 0" by (simp add: round_half_even_def)
  have pos: "(0::rat) < 2 powi (- 1075)" by (simp del: power_int_numeral_neg_numeral)
  show ?thesis by (simp only: fl_pos_eq[OF pos] u q r of_int_0 mult_zero_left)
qed

lemma no_overflow_pow2:
  assumes "e \<le> 1023"
  shows "\<not> overflows (2 powi e)"
proof -
  have "(2::rat) powi e \<le> 2 powi 1023" using assms by (simp only: powi2_le_iff)
  also have "\<dots> < 2 ^ 1024 - 2 ^ 970" by simp
  finally show ?thesis by (simp add: overflows_def)
qed

lemma decrease_loop_underflow:
  assumes lf: "1 / 2 < lf"
  shows "k \<le> 1023 \<Longrightarrow> k = int n - 1074
     \<Longrightarrow> decrease_loop lf 0 (2 powi k) = Some (Inr (2 powi (- 1074)))"
proof (induction n arbitrary: k)
  case 0
  then have k: "k = - 1074" by simp
  have h: "2 powi (- 1074) / 2 = (2::rat) powi (- 1075)"
    using power_int_diff[of "2::rat" "- 1074" 1] by (simp del: power_int_numeral_neg_numeral)
  have no: "\<not> overflows (2 powi (- 1075))" by (rule no_overflow_pow2) simp
  show ?case
    by (subst decrease_loop.simps) (simp only: k h no fl_half_least if_False, simp add: fl_zero)
next
  case (Suc n)
  then have k: "- 1074 \<le> k - 1" "k - 1 \<le> 1023" "k - 1 = int n - 1074" by simp_all
  have h: "2 powi k / 2 = (2::rat) powi (k - 1)"
    using power_int_diff[of "2::rat" k 1] by simp
  have no: "\<not> overflows (2 powi (k - 1))" by (rule no_overflow_pow2) (rule k(2))
  have ex: "fl (2 powi (k - 1)) = 2 powi (k - 1)" by (rule fl_pow2) (rule k(1))
  have "(2::rat) powi (- 1075) = 2 powi (- 1074) * (1 / 2)"
    using power_int_diff[of "2::rat" "- 1074" 1] by (simp del: power_int_numeral_neg_numeral)
  also have "\<dots> < 2 powi (- 1074) * lf"
    using lf by (simp only: mult_strict_left_mono zero_less_power_int zero_less_numeral)
  also have "\<dots> \<le> 2 powi (k - 1) * lf"
  proof (rule mult_right_mono)
    show "(2::rat) powi (- 1074) \<le> 2 powi (k - 1)" using k(1) by (subst powi2_le_iff)
    show "0 \<le> lf" using lf by simp
  qed
  finally have pos: "of_int 0 < fl (2 powi (k - 1) * lf)"
    using fl_positive by simp
  show ?case
    by (subst decrease_loop.simps) (simp only: h no ex pos if_True if_False Suc.IH[OF k(2) k(3)])
qed

lemma decrease_from_8:
  assumes lf: "1 / 2 < lf"
  shows "define_potential_capacity_decrease lf 0 8 = Some (Inr 0)"
proof -
  have "decrease_loop lf 0 (2 powi 3) = Some (Inr (2 powi (- 1074)))"
    by (rule decrease_loop_underflow[OF lf, of 3 1077]) simp_all
  moreover have "\<lfloor>(2::rat) powi (- 1074)\<rfloor> = 0"
    by (simp add: floor_eq_iff power_int_minus field_simps)
  ultimately show ?thesis by (simp add: define_potential_capacity_decrease_def)
qed

section \<open>Properties of the probing loop\<close>

text \<open>
  In a well-formed table the loop returns what \<open>probe_spec\<close> says: started \<open>d\<close> steps
  after the home index with only busy buckets behind it, it returns the first bucket
  from there on that is not busy, and raises \<open>KeyError\<close> when it is back at the home
  index.
\<close>

lemma home_less: "0 < cap \<Longrightarrow> home h cap key < cap"
  by (simp add: home_def nat_less_iff)

lemma probe_from:
  assumes cap: "0 < cap" and len: "length bs = cap"
  shows "d < cap \<Longrightarrow> \<forall>j < d. busy bs key ((home h cap key + j) mod cap)
     \<Longrightarrow> probe h bs cap key ((home h cap key + d) mod cap)
       = (case find (\<lambda>j. \<not> busy bs key ((home h cap key + j) mod cap)) [d..<cap] of
            None \<Rightarrow> Inl (KeyError key)
          | Some j \<Rightarrow> Inr ((home h cap key + j) mod cap))"
proof (induction "cap - d" arbitrary: d)
  case 0
  then show ?case by simp
next
  case (Suc n)
  let ?s = "home h cap key"
  let ?i = "(?s + d) mod cap"
  have i: "?i < length bs" using cap len by simp
  have upt: "[d..<cap] = d # [Suc d..<cap]" using Suc.prems(1) by (simp add: upt_conv_Cons)
  show ?case
  proof (cases "busy bs key ?i")
    case False
    then show ?thesis using i
      by (subst probe.simps) (auto simp: upt busy_def)
  next
    case True
    have nxt: "(?i + 1) mod cap = (?s + Suc d) mod cap" by (simp add: mod_Suc_eq)
    show ?thesis
    proof (cases "Suc d = cap")
      case e: True
      then have "(?s + Suc d) mod cap = ?s" using home_less[OF cap, of h key] by simp
      then have w: "(?i + 1) mod cap = nat (h key mod int cap)" using nxt by (simp add: home_def)
      have nx: "(?i + 1) mod cap < length bs" using cap len by simp
      show ?thesis using True i nx w e cap
        by (subst probe.simps) (simp add: upt busy_def)
    next
      case ne: False
      then have d1: "Suc d < cap" using Suc.prems(1) by simp
      have "(?s + Suc d) mod cap \<noteq> ?s"
      proof
        assume "(?s + Suc d) mod cap = ?s"
        then have "(?s + Suc d) mod cap = ?s mod cap" using home_less[OF cap, of h key] by simp
        then have "cap dvd (?s + Suc d) - ?s"
          by (subst mod_eq_dvd_iff_nat[symmetric]) simp_all
        then have "cap dvd Suc d" by simp
        then have "Suc d mod cap = 0" by simp
        then show False using d1 by simp
      qed
      then have w: "(?i + 1) mod cap \<noteq> nat (h key mod int cap)" using nxt by (simp add: home_def)
      have nx: "(?i + 1) mod cap < length bs" using cap len by simp
      have all: "\<forall>j < Suc d. busy bs key ((?s + j) mod cap)"
        using Suc.prems(2) True by (auto simp: less_Suc_eq)
      have n: "n = cap - Suc d" using Suc.hyps(2) by simp
      have "probe h bs cap key ?i = probe h bs cap key ((?i + 1) mod cap)"
        using True i nx w cap by (subst probe.simps) (simp add: busy_def)
      also have "\<dots> = probe h bs cap key ((?s + Suc d) mod cap)" by (simp only: nxt)
      also have "\<dots> = (case find (\<lambda>j. \<not> busy bs key ((?s + j) mod cap)) [Suc d..<cap] of
            None \<Rightarrow> Inl (KeyError key)
          | Some j \<Rightarrow> Inr ((?s + j) mod cap))"
        by (rule Suc.hyps(1)[OF n d1 all])
      finally show ?thesis using True by (simp add: upt)
    qed
  qed
qed

lemma get_bucket_index_spec:
  assumes "well_formed t"
  shows "get_bucket_index h t key = probe_spec h (buckets t) (capacity t) key"
proof -
  from assms have cap: "0 < capacity t" and len: "length (buckets t) = capacity t"
    by (simp_all add: well_formed_def)
  have "probe h (buckets t) (capacity t) key ((home h (capacity t) key + 0) mod capacity t)
      = probe_spec h (buckets t) (capacity t) key"
    using probe_from[OF cap len, of 0 key h] cap by (simp add: probe_spec_def)
  then show ?thesis
    using cap home_less[OF cap, of h key] by (simp add: get_bucket_index_def home_def)
qed

lemma probe_fuel_enough:
  assumes cap: "0 < cap" and len: "length bs = cap"
  shows "d < cap \<Longrightarrow> cap - d \<le> n
     \<Longrightarrow> probe_fuel n h bs cap key ((home h cap key + d) mod cap)
       = Some (probe h bs cap key ((home h cap key + d) mod cap))"
proof (induction n arbitrary: d)
  case 0
  then show ?case by simp
next
  case (Suc n)
  let ?s = "home h cap key"
  let ?i = "(?s + d) mod cap"
  have nxt: "(?i + 1) mod cap = (?s + Suc d) mod cap" by (simp add: mod_Suc_eq)
  show ?case
  proof (cases "Suc d = cap")
    case True
    then have "(?s + Suc d) mod cap = ?s" using home_less[OF cap, of h key] by simp
    then have w: "(?i + 1) mod cap = nat (h key mod int cap)" using nxt by (simp add: home_def)
    show ?thesis using w by (subst probe.simps) simp
  next
    case False
    then have d1: "Suc d < cap" using Suc.prems(1) by simp
    have "probe_fuel n h bs cap key ((?s + Suc d) mod cap)
        = Some (probe h bs cap key ((?s + Suc d) mod cap))"
      using Suc.prems(2) by (intro Suc.IH[OF d1]) simp
    then have ih: "probe_fuel n h bs cap key ((?i + 1) mod cap)
        = Some (probe h bs cap key ((?i + 1) mod cap))" by (simp only: nxt)
    show ?thesis using ih by (subst probe.simps) simp
  qed
qed

lemma cyclic_index:
  fixes cap s i :: nat
  assumes "0 < cap" and "s < cap" and "i < cap"
  shows "\<exists>d < cap. (s + d) mod cap = i"
proof (cases "s \<le> i")
  case True
  then have "(s + (i - s)) mod cap = i" using assms by simp
  moreover have "i - s < cap" using assms by simp
  ultimately show ?thesis by blast
next
  case False
  then have "(s + (cap + i - s)) mod cap = i" using assms by simp
  moreover have "cap + i - s < cap" using assms False by simp
  ultimately show ?thesis by blast
qed

lemma probe_spec_Inr:
  assumes "0 < cap" and "probe_spec h bs cap key = Inr i"
  shows "i < cap \<and> \<not> busy bs key i"
proof -
  from assms(2) obtain d where
    f: "find (\<lambda>d. \<not> busy bs key ((home h cap key + d) mod cap)) [0..<cap] = Some d"
    and i: "i = (home h cap key + d) mod cap"
    by (auto simp: probe_spec_def split: option.splits)
  from f have "\<not> busy bs key ((home h cap key + d) mod cap)" by (auto simp: find_Some_iff)
  then show ?thesis using assms(1) i by simp
qed

lemma probe_spec_Inl:
  assumes "0 < cap" and "probe_spec h bs cap key = Inl e"
  shows "e = KeyError key \<and> (\<forall>i < cap. busy bs key i)"
proof -
  from assms(2) have
    f: "find (\<lambda>d. \<not> busy bs key ((home h cap key + d) mod cap)) [0..<cap] = None"
    and e: "e = KeyError key"
    by (auto simp: probe_spec_def split: option.splits)
  have "busy bs key i" if lt: "i < cap" for i
  proof -
    obtain d where "d < cap" "(home h cap key + d) mod cap = i"
      using cyclic_index[OF assms(1) home_less[OF assms(1), of h key] lt] by blast
    then show ?thesis using f by (auto simp: find_None_iff)
  qed
  then show ?thesis using e by simp
qed

lemma getitem_well_formed:
  assumes "well_formed t"
  shows "(\<exists>v. getitem h t key = Inr v) \<or> getitem h t key = Inl (KeyError key)"
proof -
  from assms have cap: "0 < capacity t" by (simp add: well_formed_def)
  show ?thesis
    using probe_spec_Inl[OF cap, of h "buckets t" key]
    by (cases "probe_spec h (buckets t) (capacity t) key")
       (auto simp: getitem_def get_bucket_index_spec[OF assms] split: option.splits)
qed

section \<open>Properties of rehashing\<close>

text \<open>
  The loop of \<open>_resize\<close> computes \<open>rehash_spec\<close>: by induction on the entries still to be
  placed, with the buckets filled so far as the accumulator. The new array holds the
  old entries, each once.
\<close>

lemma rehash_spec_alt:
  "rehash_spec h c bs
   = map (\<lambda>j. map (rehashed_entry h) (filter (\<lambda>e. home h c (fst e) = j) (concat bs))) [0..<c]"
  by (simp add: rehash_spec_def rehashed_entry_def case_prod_unfold)

lemma rehash_entries_eq:
  assumes "0 < c"
  shows "length nb = c \<Longrightarrow>
     rehash_entries h c es nb
     = Inr (map (\<lambda>j. nb ! j @ map (rehashed_entry h) (filter (\<lambda>e. home h c (fst e) = j) es)) [0..<c])"
proof (induction es arbitrary: nb)
  case Nil
  then have "map ((!) nb) [0..<c] = nb" using map_nth[of nb] by simp
  then show ?case by simp
next
  case (Cons e es)
  obtain key val x where e: "e = (key, val, x)" by (cases e) auto
  let ?i = "home h c key"
  let ?nb = "nb[?i := nb ! ?i @ [(key, val, h key)]]"
  have i: "?i < length nb" using assms Cons.prems by (simp add: home_less)
  have len: "length ?nb = c" using Cons.prems by simp
  have "rehash_entries h c (e # es) nb = rehash_entries h c es ?nb"
    using assms i by (simp add: e home_def Let_def)
  also have "\<dots> = Inr (map (\<lambda>j. ?nb ! j @ map (rehashed_entry h)
                       (filter (\<lambda>e. home h c (fst e) = j) es)) [0..<c])"
    by (rule Cons.IH[OF len])
  also have "map (\<lambda>j. ?nb ! j @ map (rehashed_entry h) (filter (\<lambda>e. home h c (fst e) = j) es)) [0..<c]
           = map (\<lambda>j. nb ! j @ map (rehashed_entry h)
                       (filter (\<lambda>e. home h c (fst e) = j) (e # es))) [0..<c]"
    using i Cons.prems by (auto simp: e rehashed_entry_def nth_list_update)
  finally show ?case .
qed

lemma rehash_eq_spec:
  assumes "0 < c \<or> concat bs = []"
  shows "rehash h c bs = Inr (rehash_spec h c bs)"
proof (cases "0 < c")
  case True
  show ?thesis
    using rehash_entries_eq[OF True, of "replicate c []" h "concat bs"]
    by (simp add: rehash_def rehash_spec_alt cong: map_cong)
next
  case False
  with assms have e: "concat bs = []" and c0: "c = 0" by auto
  show ?thesis unfolding rehash_def e c0 by (simp add: rehash_spec_def)
qed

lemma mset_concat_filter_index:
  "mset (concat (map (\<lambda>j. filter (\<lambda>e. f e = j) es) [0..<c])) = mset (filter (\<lambda>e. f e < c) es)"
proof (induction c)
  case 0
  then show ?case by simp
next
  case (Suc c)
  have "mset (filter (\<lambda>e. f e < c) es) + mset (filter (\<lambda>e. f e = c) es)
      = mset (filter (\<lambda>e. f e < Suc c) es)"
    by (induction es) (auto simp: less_Suc_eq)
  with Suc show ?case by simp
qed

lemma mset_rehash_spec:
  assumes "0 < c"
  shows "mset (concat (rehash_spec h c bs)) = mset (map (rehashed_entry h) (concat bs))"
proof -
  have "concat (rehash_spec h c bs)
      = map (rehashed_entry h) (concat (map (\<lambda>j. filter (\<lambda>e. home h c (fst e) = j) (concat bs)) [0..<c]))"
    by (simp add: rehash_spec_alt map_concat comp_def)
  moreover have "filter (\<lambda>e. home h c (fst e) < c) (concat bs) = concat bs"
    using assms by (simp add: home_less)
  ultimately show ?thesis
    using mset_concat_filter_index[of "\<lambda>e. home h c (fst e)" "concat bs" c] by simp
qed

lemma iter_d_alt: "iter_d t = map (\<lambda>e. (fst e, fst (snd e))) (concat (buckets t))"
  by (simp add: iter_d_def map_concat case_prod_unfold)

section \<open>Evaluation\<close>

text \<open>The overflow bound as a numeral, for evaluating the definitions on concrete runs.\<close>

lemma overflows_code [code]:
  "overflows x = (179769313486231580793728971405303415079934132710037826936173778980444968292764750946649017977587207096330286416692887910946555547851940402630657488671505820681908902000708383676273854845817711531764475730270069855571366959622842914819860834936475292719074168444365510704342711559699508093042880177904174497792 \<le> \<bar>x\<bar>)"
  by (simp add: overflows_def)

lemma default_load_factor_value:
  "default_load_factor = 6004799503160661 / 9007199254740992"
  by code_simp

lemma default_load_factor_bounds: "1 / 2 < default_load_factor" "default_load_factor < 1"
  by (simp_all add: default_load_factor_value)

text \<open>
  The default table, the table after \<open>d[1] = "a"\<close>, and the table after \<open>del d[1]\<close>:
  removing the only entry leaves the counter at 0, \<open>0 < 8 // 4\<close> starts the shrinking
  search, and with size 0 the search halves the capacity until the float underflows.
\<close>

lemma fresh_table:
  "init (hash_numeric (\<lambda>s. 0)) 8 default_load_factor ([] :: (string \<times> string) list)
   = Some (Inr \<lparr>load_factor = default_load_factor, size_d = 0, capacity = 8,
        buckets = [[], [], [], [], [], [], [], []]\<rparr>)"
  by code_simp

lemma one_key_table:
  "setitem (hash_numeric (\<lambda>s. 0)) \<lparr>load_factor = default_load_factor, size_d = 0, capacity = 8,
        buckets = [[], [], [], [], [], [], [], []]\<rparr> (PyInt 1) ''a''
   = Some (Inr \<lparr>load_factor = default_load_factor, size_d = 1, capacity = 8,
        buckets = [[], [(PyInt 1, ''a'', 1)], [], [], [], [], [], []]\<rparr>)"
  by code_simp

lemma delete_last_key:
  "delitem (hash_numeric (\<lambda>s. 0)) \<lparr>load_factor = default_load_factor, size_d = 1, capacity = 8,
        buckets = [[], [(PyInt 1, ''a'', 1)], [], [], [], [], [], []]\<rparr> (PyInt 1)
   = Some (Inr \<lparr>load_factor = default_load_factor, size_d = 0, capacity = 0,
        buckets = []\<rparr>)"
proof -
  have g: "get_bucket_index (hash_numeric (\<lambda>s. 0))
        \<lparr>load_factor = default_load_factor, size_d = 1, capacity = 8,
        buckets = [[], [(PyInt 1, ''a'', 1)], [], [], [], [], [], []]\<rparr> (PyInt 1) = Inr 1"
    by code_simp
  show ?thesis
    by (simp add: delitem_def g resize_def decrease_from_8[OF default_load_factor_bounds(1)]
          rehash_def)
qed

lemma set_on_emptied_table:
  "setitem (hash_numeric (\<lambda>s. 0)) \<lparr>load_factor = default_load_factor, size_d = 0, capacity = 0,
        buckets = []\<rparr> (PyInt 1) ''a''
   = Some (Inl ZeroDivisionError)"
  by (simp add: setitem_def capacity_recalculation_def truediv_int_def)

lemma emptied_table:
  "script (hash_numeric (\<lambda>s. 0)) 8 default_load_factor [] [Set (PyInt 1) ''a'', Del (PyInt 1)]
   = Some (Inr \<lparr>load_factor = default_load_factor, size_d = 0, capacity = 0,
        buckets = []\<rparr>)"
  by (simp add: script_def fresh_table one_key_table delete_last_key)

section \<open>Keys that are equal by value but differ in type\<close>

text \<open>
  Claim C1. Two keys that are equal by value but of different types (\<open>10\<close> and \<open>10.0\<close>)
  are stored as two entries and each is read back with its own value. The probing loop
  compares the types, but the scan of \<open>__getitem__\<close> does not: in a default table,
  after \<open>d[10] = "value1"\<close>, \<open>d[10.0] = "value2"\<close> and four more insertions (the sixth
  insertion doubles the capacity and rehashes both keys into bucket 10), \<open>d[10.0]\<close>
  returns \<open>"value1"\<close>, the value stored under the key \<open>10\<close>.
\<close>

theorem C1_float_key_reads_int_value:
  "observe (\<lambda>t. (getitem (hash_numeric (\<lambda>s. 0)) t (PyInt 10),
                  getitem (hash_numeric (\<lambda>s. 0)) t (PyFloat 10), capacity t))
     (script (hash_numeric (\<lambda>s. 0)) 8 default_load_factor []
        [Set (PyInt 10) ''value1'', Set (PyFloat 10) ''value2'', Set (PyInt 0) ''a'',
         Set (PyInt 1) ''b'', Set (PyInt 4) ''c'', Set (PyInt 5) ''d''])
   = Some (Inr (Inr ''value1'', Inr ''value1'', 16))"
  by code_simp

section \<open>The size counter\<close>

text \<open>
  Claim C2. The size counter equals the number of stored entries after every operation,
  in particular after a set on a key that is already stored. \<open>__setitem__\<close> increments
  the counter before it looks for the key: after \<open>d[1] = "value1"\<close> and
  \<open>d[1] = "new_value1"\<close> on a default table, \<open>len(d)\<close> is 2 and one entry is stored.
\<close>

theorem C2_update_counts_twice:
  "observe (\<lambda>t. (len_d t, entry_count t, iter_d t))
     (script (hash_numeric (\<lambda>s. 0)) 8 default_load_factor []
        [Set (PyInt 1) ''value1'', Set (PyInt 1) ''new_value1''])
   = Some (Inr (2, 1, [(PyInt 1, ''new_value1'')]))"
  by code_simp

section \<open>Set and get without deletion\<close>

text \<open>
  Claim C4. Without deletions, \<open>get(k)\<close> returns the value of the latest \<open>set(k, v)\<close>.
  The scan of \<open>__setitem__\<close> does not compare the types either: once \<open>10\<close> and \<open>10.0\<close>
  share a bucket, \<open>d[10.0] = "value3"\<close> overwrites the entry of the key \<open>10\<close>; the table
  then holds two entries with the key \<open>10.0\<close> and \<open>d[10]\<close> raises \<open>KeyError\<close>, although
  \<open>10\<close> was set and never deleted.
\<close>

theorem C4_set_key_is_lost:
  "observe (\<lambda>t. (getitem (hash_numeric (\<lambda>s. 0)) t (PyInt 10), iter_d t))
     (script (hash_numeric (\<lambda>s. 0)) 8 default_load_factor []
        [Set (PyInt 10) ''value1'', Set (PyFloat 10) ''value2'', Set (PyInt 0) ''a'',
         Set (PyInt 1) ''b'', Set (PyInt 4) ''c'', Set (PyInt 5) ''d'',
         Set (PyFloat 10) ''value3''])
   = Some (Inr (Inl (KeyError (PyInt 10)),
        [(PyInt 0, ''a''), (PyInt 1, ''b''), (PyInt 4, ''c''), (PyInt 5, ''d''),
         (PyFloat 10, ''value3''), (PyFloat 10, ''value2'')]))"
  by code_simp

section \<open>The capacity after deletions\<close>

text \<open>
  Claim C3. The capacity stays a positive integer under every sequence of operations,
  deletions down to size 0 included. In a default table, \<open>d[1] = "a"\<close> followed by
  \<open>del d[1]\<close> leaves capacity 0 and no bucket:
  \<open>__define_potential_capacity_decrease\<close> divides with \<open>/\<close> and has no lower bound, and
  \<open>int(...)\<close> of the last float, \<open>2^-1074\<close>, is 0.
\<close>

theorem C3_capacity_becomes_zero:
  "observe (\<lambda>t. (capacity t, buckets t, len_d t))
     (script (hash_numeric (\<lambda>s. 0)) 8 default_load_factor []
        [Set (PyInt 1) ''a'', Del (PyInt 1)])
   = Some (Inr (0, [], 0))"
  by (simp add: observe_def emptied_table len_d_def)

section \<open>Set never fails\<close>

text \<open>
  Claim C6. \<open>set(key, value)\<close> succeeds in every reachable state. In the state reached
  by \<open>d[1] = "a"; del d[1]\<close> the capacity is 0, and the next \<open>d[1] = "a"\<close> raises
  \<open>ZeroDivisionError\<close> at \<open>self.size / self.capacity\<close>.
\<close>

theorem C6_set_raises_after_emptying:
  "script (hash_numeric (\<lambda>s. 0)) 8 default_load_factor []
     [Set (PyInt 1) ''a'', Del (PyInt 1), Set (PyInt 1) ''a'']
   = Some (Inl ZeroDivisionError)"
  by (simp add: script_def fresh_table one_key_table delete_last_key set_on_emptied_table)

section \<open>Membership test\<close>

text \<open>
  In every state \<open>contains(key)\<close> maps the outcome of \<open>get(key)\<close>: true exactly when it
  succeeds, false exactly when it raises \<open>KeyError\<close>, and never a \<open>KeyError\<close> of its own;
  in a well-formed table these are the only outcomes, so it returns a boolean.
  (\<open>contains\<close> and \<open>getitem\<close> only read the table: they return no table.)
\<close>

lemma contains_maps_key_error:
  "contains h t key \<noteq> Inl (KeyError k)
   \<and> (contains h t key = Inr True \<longleftrightarrow> (\<exists>v. getitem h t key = Inr v))
   \<and> (contains h t key = Inr False \<longleftrightarrow> (\<exists>k'. getitem h t key = Inl (KeyError k')))
   \<and> (well_formed t \<longrightarrow> (\<exists>b. contains h t key = Inr b))"
proof -
  have 1: "contains h t key \<noteq> Inl (KeyError k)"
    by (auto simp: contains_def split: sum.splits error.splits)
  have 2: "contains h t key = Inr True \<longleftrightarrow> (\<exists>v. getitem h t key = Inr v)"
    by (auto simp: contains_def split: sum.splits error.splits)
  have 3: "contains h t key = Inr False \<longleftrightarrow> (\<exists>k'. getitem h t key = Inl (KeyError k'))"
    by (auto simp: contains_def split: sum.splits error.splits)
  have 4: "\<exists>b. contains h t key = Inr b" if "well_formed t"
    using getitem_well_formed[OF that, of h key] by (auto simp: contains_def)
  from 1 2 3 4 show ?thesis by blast
qed

text \<open>
  Claim C9. \<open>contains(key)\<close> returns a boolean in every reachable state. In the state
  reached by \<open>d[1] = "a"; del d[1]\<close> the capacity is 0: \<open>hash(key) % self.capacity\<close>
  raises \<open>ZeroDivisionError\<close>, which \<open>__contains__\<close> does not catch, so \<open>1 in d\<close> raises
  instead of returning false.
\<close>

theorem C9_contains_raises_zero_division:
  "observe (\<lambda>t. contains (hash_numeric (\<lambda>s. 0)) t (PyInt 1))
     (script (hash_numeric (\<lambda>s. 0)) 8 default_load_factor []
        [Set (PyInt 1) ''a'', Del (PyInt 1)])
   = Some (Inr (Inl ZeroDivisionError))"
  by (simp add: observe_def emptied_table contains_def getitem_def get_bucket_index_def)

section \<open>Termination of probing\<close>

text \<open>
  Claim C10. In a table with at least one bucket (and as many buckets as its capacity),
  probing for a key terminates within \<open>capacity\<close> passes through the loop. It returns
  the first bucket, in cyclic order from the home index, that is empty or holds an
  entry with an equal key of the same type, and that index is below the capacity; it
  raises \<open>KeyError\<close>, and no other error, exactly when all buckets are busy, that is
  when the walk is back at the home index.
\<close>

theorem C10_probing_terminates:
  assumes "well_formed t"
  shows "probe_fuel (capacity t) h (buckets t) (capacity t) key (home h (capacity t) key)
           = Some (get_bucket_index h t key)
       \<and> get_bucket_index h t key = probe_spec h (buckets t) (capacity t) key
       \<and> (\<forall>i. get_bucket_index h t key = Inr i \<longrightarrow> i < capacity t \<and> \<not> busy (buckets t) key i)
       \<and> (\<forall>e. get_bucket_index h t key = Inl e \<longrightarrow>
              e = KeyError key \<and> (\<forall>i < capacity t. busy (buckets t) key i))"
proof -
  from assms have cap: "0 < capacity t" and len: "length (buckets t) = capacity t"
    by (simp_all add: well_formed_def)
  have s: "get_bucket_index h t key = probe_spec h (buckets t) (capacity t) key"
    by (rule get_bucket_index_spec[OF assms])
  have "probe_fuel (capacity t) h (buckets t) (capacity t) key
          ((home h (capacity t) key + 0) mod capacity t)
      = Some (probe h (buckets t) (capacity t) key ((home h (capacity t) key + 0) mod capacity t))"
    using cap by (intro probe_fuel_enough[OF cap len]) simp_all
  then have f: "probe_fuel (capacity t) h (buckets t) (capacity t) key (home h (capacity t) key)
      = Some (get_bucket_index h t key)"
    using cap home_less[OF cap, of h key] by (simp add: get_bucket_index_def home_def)
  show ?thesis
    using f s probe_spec_Inr[OF cap, of h "buckets t" key] probe_spec_Inl[OF cap, of h "buckets t" key]
    by simp
qed

text \<open>
  Witness: in the table holding the key 1 in bucket 1, probing for 9 starts at bucket 1,
  walks past it and returns the empty bucket 2.
\<close>

theorem C10_probing_witness:
  "well_formed \<lparr>load_factor = default_load_factor, size_d = 1, capacity = 8,
        buckets = [[], [(PyInt 1, ''a'', 1)], [], [], [], [], [], []]\<rparr>
   \<and> probe_fuel 8 (hash_numeric (\<lambda>s. 0)) [[], [(PyInt 1, ''a'', 1)], [], [], [], [], [], []] 8 (PyInt 9)
        (home (hash_numeric (\<lambda>s. 0)) 8 (PyInt 9)) = Some (Inr 2)"
proof -
  have g: "get_bucket_index (hash_numeric (\<lambda>s. 0)) \<lparr>load_factor = default_load_factor, size_d = 1, capacity = 8,
        buckets = [[], [(PyInt 1, ''a'', 1)], [], [], [], [], [], []]\<rparr> (PyInt 9) = Inr 2"
    by code_simp
  have wf: "well_formed \<lparr>load_factor = default_load_factor, size_d = 1, capacity = 8,
        buckets = [[], [(PyInt 1, ''a'', 1)], [], [], [], [], [], []]\<rparr>"
    by (simp add: well_formed_def)
  have "probe_fuel (capacity \<lparr>load_factor = default_load_factor, size_d = 1, capacity = 8,
        buckets = [[], [(PyInt 1, ''a'', 1)], [], [], [], [], [], []]\<rparr>) (hash_numeric (\<lambda>s. 0)) (buckets \<lparr>load_factor = default_load_factor, size_d = 1, capacity = 8,
        buckets = [[], [(PyInt 1, ''a'', 1)], [], [], [], [], [], []]\<rparr>) (capacity \<lparr>load_factor = default_load_factor, size_d = 1, capacity = 8,
        buckets = [[], [(PyInt 1, ''a'', 1)], [], [], [], [], [], []]\<rparr>) (PyInt 9)
          (home (hash_numeric (\<lambda>s. 0)) (capacity \<lparr>load_factor = default_load_factor, size_d = 1, capacity = 8,
        buckets = [[], [(PyInt 1, ''a'', 1)], [], [], [], [], [], []]\<rparr>) (PyInt 9))
        = Some (get_bucket_index (hash_numeric (\<lambda>s. 0)) \<lparr>load_factor = default_load_factor, size_d = 1, capacity = 8,
        buckets = [[], [(PyInt 1, ''a'', 1)], [], [], [], [], [], []]\<rparr> (PyInt 9))"
    using C10_probing_terminates[OF wf, where h = "hash_numeric (\<lambda>s. 0)" and key = "PyInt 9"]
    by (rule conjunct1)
  then have "probe_fuel 8 (hash_numeric (\<lambda>s. 0)) [[], [(PyInt 1, ''a'', 1)], [], [], [], [], [], []] 8 (PyInt 9)
        (home (hash_numeric (\<lambda>s. 0)) 8 (PyInt 9)) = Some (Inr 2)"
    by (simp only: g dictionary.select_convs)
  with wf show ?thesis by (rule conjI)
qed

section \<open>Resize\<close>

text \<open>
  Claim C7. For every table and every new capacity (positive, or any when the table
  holds no entry), the rehash of \<open>_resize\<close> succeeds and builds the array of
  \<open>rehash_spec\<close>: \<open>new_capacity\<close> buckets, each old entry in bucket
  \<open>hash(key) % new_capacity\<close> with the hash recomputed, in the order in which the old
  array lists the entries. \<open>_resize\<close> stores that array and the capacity its search
  returned, and changes nothing else: the pairs that iteration yields are the same
  multiset, and the size counter is unchanged.
\<close>

theorem C7_resize_rehashes:
  assumes "0 < c \<or> concat (buckets t) = []"
  shows "rehash h c (buckets t) = Inr (rehash_spec h c (buckets t))
       \<and> ((if smaller
            then define_potential_capacity_decrease (load_factor t) (size_d t) (capacity t)
            else define_potential_capacity_increase (load_factor t) (size_d t) (capacity t))
           = Some (Inr c)
          \<longrightarrow> resize h t smaller
              = Some (Inr (t\<lparr>buckets := rehash_spec h c (buckets t), capacity := c\<rparr>)))
       \<and> length (rehash_spec h c (buckets t)) = c
       \<and> mset (iter_d (t\<lparr>buckets := rehash_spec h c (buckets t), capacity := c\<rparr>))
           = mset (iter_d t)
       \<and> size_d (t\<lparr>buckets := rehash_spec h c (buckets t), capacity := c\<rparr>) = size_d t"
proof -
  have r: "rehash h c (buckets t) = Inr (rehash_spec h c (buckets t))"
    by (rule rehash_eq_spec[OF assms])
  have l: "length (rehash_spec h c (buckets t)) = c" by (simp add: rehash_spec_def)
  have m: "mset (iter_d (t\<lparr>buckets := rehash_spec h c (buckets t), capacity := c\<rparr>))
           = mset (iter_d t)"
  proof (cases "0 < c")
    case True
    have "image_mset (\<lambda>e. (fst e, fst (snd e))) (mset (concat (rehash_spec h c (buckets t))))
        = image_mset (\<lambda>e. (fst e, fst (snd e)))
            (mset (map (rehashed_entry h) (concat (buckets t))))"
      by (rule arg_cong[OF mset_rehash_spec[OF True]])
    moreover have "(\<lambda>e. (fst e, fst (snd e))) \<circ> rehashed_entry h = (\<lambda>e :: 'a entry. (fst e, fst (snd e)))"
      by (simp add: fun_eq_iff rehashed_entry_def)
    ultimately show ?thesis by (simp add: iter_d_alt multiset.map_comp)
  next
    case False
    with assms show ?thesis by (simp add: iter_d_alt rehash_spec_def)
  qed
  show ?thesis using r l m by (simp add: resize_def)
qed

text \<open>
  Witness: a table of capacity 8 whose counter has reached 6 is resized to capacity 16;
  the keys \<open>10\<close> and \<open>10.0\<close>, in buckets 2 and 3 before, share bucket 10 after, in
  that order.
\<close>

theorem C7_resize_witness:
  "(0 < (16::nat) \<or> concat (buckets \<lparr>load_factor = default_load_factor, size_d = 6, capacity = 8,
        buckets = [[(PyInt 0, ''a'', 0)], [(PyInt 1, ''b'', 1)], [(PyInt 10, ''value1'', 10)],
                   [(PyFloat 10, ''value2'', 10)], [(PyInt 4, ''c'', 4)], [], [], []]\<rparr>) = [])
   \<and> resize (hash_numeric (\<lambda>s. 0)) \<lparr>load_factor = default_load_factor, size_d = 6, capacity = 8,
        buckets = [[(PyInt 0, ''a'', 0)], [(PyInt 1, ''b'', 1)], [(PyInt 10, ''value1'', 10)],
                   [(PyFloat 10, ''value2'', 10)], [(PyInt 4, ''c'', 4)], [], [], []]\<rparr> False
       = Some (Inr \<lparr>load_factor = default_load_factor, size_d = 6, capacity = 16,
            buckets = [[(PyInt 0, ''a'', 0)], [(PyInt 1, ''b'', 1)], [], [], [(PyInt 4, ''c'', 4)], [], [], [],
           [], [], [(PyInt 10, ''value1'', 10), (PyFloat 10, ''value2'', 10)], [], [], [], [], []]\<rparr>)"
proof -
  have c: "0 < (16::nat) \<or> concat (buckets \<lparr>load_factor = default_load_factor, size_d = 6, capacity = 8,
        buckets = [[(PyInt 0, ''a'', 0)], [(PyInt 1, ''b'', 1)], [(PyInt 10, ''value1'', 10)],
                   [(PyFloat 10, ''value2'', 10)], [(PyInt 4, ''c'', 4)], [], [], []]\<rparr>) = []"
    by simp
  have s: "define_potential_capacity_increase default_load_factor 6 8 = Some (Inr 16)"
    by code_simp
  have r: "rehash_spec (hash_numeric (\<lambda>s. 0)) 16
             [[(PyInt 0, ''a'', 0)], [(PyInt 1, ''b'', 1)], [(PyInt 10, ''value1'', 10)],
              [(PyFloat 10, ''value2'', 10)], [(PyInt 4, ''c'', 4)], [], [], []]
           = [[(PyInt 0, ''a'', 0)], [(PyInt 1, ''b'', 1)], [], [], [(PyInt 4, ''c'', 4)], [], [], [],
           [], [], [(PyInt 10, ''value1'', 10), (PyFloat 10, ''value2'', 10)], [], [], [], [], []]"
    by code_simp
  have "resize (hash_numeric (\<lambda>s. 0)) \<lparr>load_factor = default_load_factor, size_d = 6, capacity = 8,
        buckets = [[(PyInt 0, ''a'', 0)], [(PyInt 1, ''b'', 1)], [(PyInt 10, ''value1'', 10)],
                   [(PyFloat 10, ''value2'', 10)], [(PyInt 4, ''c'', 4)], [], [], []]\<rparr> False
       = Some (Inr (\<lparr>load_factor = default_load_factor, size_d = 6, capacity = 8,
        buckets = [[(PyInt 0, ''a'', 0)], [(PyInt 1, ''b'', 1)], [(PyInt 10, ''value1'', 10)],
                   [(PyFloat 10, ''value2'', 10)], [(PyInt 4, ''c'', 4)], [], [], []]\<rparr>\<lparr>buckets := rehash_spec (hash_numeric (\<lambda>s. 0)) 16 (buckets \<lparr>load_factor = default_load_factor, size_d = 6, capacity = 8,
        buckets = [[(PyInt 0, ''a'', 0)], [(PyInt 1, ''b'', 1)], [(PyInt 10, ''value1'', 10)],
                   [(PyFloat 10, ''value2'', 10)], [(PyInt 4, ''c'', 4)], [], [], []]\<rparr>), capacity := 16\<rparr>))"
    using C7_resize_rehashes[OF c, where h = "hash_numeric (\<lambda>s. 0)" and smaller = False] s by simp
  then show ?thesis using r by simp
qed

end
